theory Spec2Isabelle
  imports Complex_Main
begin

section \<open>Strings\<close>

text \<open>
  A text is a \<^typ>\<open>string\<close>: one \<^typ>\<open>char\<close> per character of the Python \<open>str\<close>, so
  \<^const>\<open>length\<close> is Python's \<open>len\<close>. \<open>is_space\<close> holds of the characters that
  \<open>str.split()\<close> and \<open>str.strip()\<close> (both called without argument) treat as whitespace;
  the list is the part of Python's whitespace table that a \<^typ>\<open>char\<close> can hold.
\<close>

definition is_space :: "char \<Rightarrow> bool" where
  "is_space c \<longleftrightarrow>
     of_char c \<in> set [9, 10, 11, 12, 13, 28, 29, 30, 31, 32, 133, 160 :: nat]"

text \<open>\<open>text.split()\<close>: the maximal runs of non-whitespace characters, in order.\<close>

function split_ws :: "string \<Rightarrow> string list" where
  "split_ws [] = []"
| "split_ws (c # cs) =
     (if is_space c then split_ws cs
      else (c # takeWhile (\<lambda>x. \<not> is_space x) cs)
             # split_ws (dropWhile (\<lambda>x. \<not> is_space x) cs))"
  by pat_completeness auto
termination
  by (relation "measure length") (auto simp: less_Suc_eq_le length_dropWhile_le)

text \<open>\<open>sep.join(ws)\<close>.\<close>

fun join :: "string \<Rightarrow> string list \<Rightarrow> string" where
  "join sep [] = []"
| "join sep [w] = w"
| "join sep (w # v # ws) = w @ sep @ join sep (v # ws)"

text \<open>\<open>s.strip()\<close>: leading and trailing whitespace removed.\<close>

definition strip :: "string \<Rightarrow> string" where
  "strip s = rev (dropWhile is_space (rev (dropWhile is_space s)))"

section \<open>The windower: \<open>chunk_text\<close>\<close>

text \<open>
  The \<open>for word in words\<close> loop of \<open>chunk_text\<close>, on the state
  \<open>(chunks, current_chunk, current_length)\<close>. \<open>max_length\<close> is a Python \<open>int\<close>.
  When the budget is exceeded the loop appends \<open>" ".join(current_chunk)\<close> whatever
  \<open>current_chunk\<close> holds, also when it is empty.
\<close>

fun chunk_loop ::
  "int \<Rightarrow> string list \<Rightarrow> string list \<times> string list \<times> int
     \<Rightarrow> string list \<times> string list \<times> int" where
  "chunk_loop max_length [] st = st"
| "chunk_loop max_length (word # words) (chunks, current_chunk, current_length) =
     (let current_length = current_length + (int (length word) + 1) in
      if current_length > max_length
      then chunk_loop max_length words
             (chunks @ [join '' '' current_chunk], [word], int (length word) + 1)
      else chunk_loop max_length words
             (chunks, current_chunk @ [word], current_length))"

text \<open>\<open>chunk_text(text, max_length)\<close>: the loop, then the guarded flush of the last chunk.\<close>

definition chunk_text :: "string \<Rightarrow> int \<Rightarrow> string list" where
  "chunk_text text max_length =
     (case chunk_loop max_length (split_ws text) ([], [], 0) of
        (chunks, current_chunk, current_length) \<Rightarrow>
          if current_chunk \<noteq> [] then chunks @ [join '' '' current_chunk] else chunks)"

section \<open>The question-answering flow: \<open>ask_question\<close>\<close>

text \<open>
  The request body \<open>Question\<close>, the dictionary the extraction pipeline returns
  (\<open>{"answer": ..., "score": ...}\<close>), the dictionary appended to the history, a session of
  the store and the dictionary \<open>ask_question\<close> returns. The three dictionaries share key
  names in the source; the fields of the history entry and of the response carry a prefix.
  A score is a \<^typ>\<open>real\<close>: the handler only compares scores, with \<open>>\<close> and with
  \<open>< 0.1\<close>.
\<close>

record Question =
  question :: string
  session_id :: "string option"

record qa_result =
  answer :: string
  score :: real

record history_entry =
  entry_question :: string
  entry_answer :: string
  entry_timestamp :: string

record session =
  document_text :: string
  conversation_history :: "history_entry list"

record ask_response =
  response_answer :: string
  response_history :: "history_entry list"

type_synonym sessions = "string \<rightharpoonup> session"

text \<open>\<open>HTTPException(status_code, detail)\<close>, and the four that \<open>ask_question\<close> raises.\<close>

datatype http_exception = HTTPException (status_code: nat) (detail: string)

definition SessionNotFound :: http_exception where
  "SessionNotFound = HTTPException 400 ''Invalid or missing session ID''"

definition EmptyDocument :: http_exception where
  "EmptyDocument = HTTPException 400 ''No document uploaded for this session''"

definition EmptyQuestion :: http_exception where
  "EmptyQuestion = HTTPException 400 ''Question cannot be empty''"

definition ProcessingError :: "string \<Rightarrow> http_exception" where
  "ProcessingError e = HTTPException 500 (''Error processing question: '' @ e)"

text \<open>
  The extraction pipeline is a collaborator: a function of the question and the context
  that returns a result, or raises (\<open>Inl\<close> of the exception's text).
\<close>

type_synonym qa_pipeline = "string \<Rightarrow> string \<Rightarrow> string + qa_result"

text \<open>
  The \<open>for chunk in chunks\<close> loop on the running \<open>best_answer\<close>; an exception of the
  pipeline leaves the loop.
\<close>

fun best_answer_loop ::
  "qa_pipeline \<Rightarrow> string \<Rightarrow> string list \<Rightarrow> qa_result \<Rightarrow> string + qa_result" where
  "best_answer_loop qa q [] best_answer = Inr best_answer"
| "best_answer_loop qa q (chunk # chunks) best_answer =
     (case qa q chunk of
        Inl e \<Rightarrow> Inl e
      | Inr result \<Rightarrow>
          best_answer_loop qa q chunks
            (if score result > score best_answer then result else best_answer))"

definition initial_best :: qa_result where
  "initial_best = \<lparr>answer = [], score = 0\<rparr>"

definition no_answer :: string where
  "no_answer = ''No relevant answer found in the document.''"

text \<open>The threshold: the answer that the handler reports for the final \<open>best_answer\<close>.\<close>

definition final_answer :: "qa_result \<Rightarrow> string" where
  "final_answer best_answer =
     (if score best_answer < 0.1 then no_answer else answer best_answer)"

text \<open>The cap on the history: \<open>if len(h) > 50: h = h[-50:]\<close>.\<close>

definition limit_history :: "'a list \<Rightarrow> 'a list" where
  "limit_history h = (if length h > 50 then drop (length h - 50) h else h)"

text \<open>
  \<open>ask_question\<close>, with the store passed in and returned and \<open>now\<close> standing for
  \<open>datetime.now().isoformat()\<close>. The three checks precede the \<open>try\<close> block. Inside it,
  \<open>conversation_history.append\<close> changes the list that the store holds (\<open>appended\<close>),
  after the last call that can raise; the capped list is then stored under the same key.
\<close>

definition ask_question ::
  "qa_pipeline \<Rightarrow> string \<Rightarrow> Question \<Rightarrow> sessions
     \<Rightarrow> (http_exception + ask_response) \<times> sessions" where
  "ask_question qa now q sessions =
     (case session_id q of
        None \<Rightarrow> (Inl SessionNotFound, sessions)
      | Some sid \<Rightarrow>
          if sid = [] then (Inl SessionNotFound, sessions)
          else
            (case sessions sid of
               None \<Rightarrow> (Inl SessionNotFound, sessions)
             | Some s \<Rightarrow>
                 if document_text s = [] then (Inl EmptyDocument, sessions)
                 else if strip (question q) = [] then (Inl EmptyQuestion, sessions)
                 else
                   (case best_answer_loop qa (question q)
                           (chunk_text (document_text s) 512) initial_best of
                      Inl e \<Rightarrow> (Inl (ProcessingError e), sessions)
                    | Inr best_answer \<Rightarrow>
                        (let answer = final_answer best_answer;
                             appended = conversation_history s @
                               [\<lparr>entry_question = question q, entry_answer = answer,
                                 entry_timestamp = now\<rparr>];
                             sessions = sessions(sid \<mapsto> s\<lparr>conversation_history := appended\<rparr>);
                             history = limit_history appended;
                             sessions = sessions(sid \<mapsto>
                               s\<lparr>conversation_history := history\<rparr>)
                         in (Inr \<lparr>response_answer = answer, response_history = history\<rparr>,
                             sessions)))))"

text \<open>
  A run of calls of \<open>ask_question\<close> on one session, one after the other, each with its
  timestamp and its question; it stops at the first call that fails.
\<close>

fun ask_sequence ::
  "qa_pipeline \<Rightarrow> string \<Rightarrow> (string \<times> string) list \<Rightarrow> sessions
     \<Rightarrow> http_exception + sessions" where
  "ask_sequence qa sid [] sessions = Inr sessions"
| "ask_sequence qa sid ((now, text) # rest) sessions =
     (case ask_question qa now \<lparr>question = text, session_id = Some sid\<rparr> sessions of
        (Inl e, _) \<Rightarrow> Inl e
      | (Inr _, sessions') \<Rightarrow> ask_sequence qa sid rest sessions')"


text \<open>A word as \<open>split\<close> produces it: not empty, and free of whitespace.\<close>

definition proper :: "string \<Rightarrow> bool" where
  "proper w \<longleftrightarrow> w \<noteq> [] \<and> (\<forall>c \<in> set w. \<not> is_space c)"

text \<open>
  A window is within the budget, or it is one of the words \<open>W\<close>, taken whole.
\<close>

definition in_budget :: "int \<Rightarrow> string set \<Rightarrow> string \<Rightarrow> bool" where
  "in_budget ml W c \<longleftrightarrow> int (length c) \<le> ml \<or> c \<in> W"

text \<open>
  The loop of \<open>best_answer_loop\<close> on the results \<open>rs\<close> that the pipeline returned, one for
  each window in order.
\<close>

fun scan_results :: "qa_result list \<Rightarrow> qa_result \<Rightarrow> qa_result" where
  "scan_results [] best_answer = best_answer"
| "scan_results (result # rs) best_answer =
     scan_results rs (if score result > score best_answer then result else best_answer)"

section \<open>A scenario\<close>

text \<open>
  The end-to-end scenario of the specification: a stub pipeline that finds \<open>Paris\<close> with
  score \<open>0.95\<close> in the matching window and nothing elsewhere, a pipeline that always
  raises, a store with an uploaded document (\<open>s1\<close>), a session without text (\<open>s2\<close>) and
  one whose text is blank (\<open>s3\<close>), and 55 questions with distinct timestamps.
\<close>

definition paris_text :: string where
  "paris_text = ''Paris is the capital of France. It has a population of over two million.''"

definition stub_pipeline :: qa_pipeline where
  "stub_pipeline q c =
     (if c = paris_text then Inr \<lparr>answer = ''Paris'', score = 0.95\<rparr>
      else Inr \<lparr>answer = [], score = 0\<rparr>)"

definition failing_pipeline :: qa_pipeline where
  "failing_pipeline q c = Inl ''model unavailable''"

definition example_store :: sessions where
  "example_store =
     [''s1'' \<mapsto> \<lparr>document_text = paris_text, conversation_history = []\<rparr>,
      ''s2'' \<mapsto> \<lparr>document_text = [], conversation_history = []\<rparr>,
      ''s3'' \<mapsto> \<lparr>document_text = ''   '', conversation_history = []\<rparr>]"

definition capital_question :: string where
  "capital_question = ''What is the capital of France?''"

definition example_asks :: "(string \<times> string) list" where
  "example_asks = map (\<lambda>n. (replicate n CHR ''|'', capital_question)) [1..<56]"

text \<open>
  Three windows \<open>c\<close>, \<open>a\<close>, \<open>b\<close> of which the last two tie at the highest score; the
  same with the score for \<open>a\<close> lowered; and a pipeline whose scores all stay below the
  threshold.
\<close>

definition tie_pipeline :: qa_pipeline where
  "tie_pipeline q c =
     (if c = ''a'' then Inr \<lparr>answer = ''first'', score = 0.5\<rparr>
      else if c = ''b'' then Inr \<lparr>answer = ''second'', score = 0.5\<rparr>
      else Inr \<lparr>answer = ''third'', score = 0.25\<rparr>)"

definition lowered_pipeline :: qa_pipeline where
  "lowered_pipeline q c =
     (if c = ''a'' then Inr \<lparr>answer = ''first'', score = 0.125\<rparr> else tie_pipeline q c)"

definition faint_pipeline :: qa_pipeline where
  "faint_pipeline q c = Inr \<lparr>answer = ''France'', score = 0.05\<rparr>"

section \<open>Splitting and joining\<close>

lemma is_space_blank: "is_space CHR '' ''"
  by (simp add: is_space_def)

lemma split_ws_proper: "w \<in> set (split_ws t) \<Longrightarrow> proper w"
proof (induction t rule: split_ws.induct)
  case 1
  then show ?case by simp
next
  case (2 c cs)
  show ?case
  proof (cases "is_space c")
    case True
    with 2 show ?thesis by simp
  next
    case False
    with 2(3) have "w = c # takeWhile (\<lambda>x. \<not> is_space x) cs
        \<or> w \<in> set (split_ws (dropWhile (\<lambda>x. \<not> is_space x) cs))"
      by simp
    then show ?thesis
    proof
      assume "w = c # takeWhile (\<lambda>x. \<not> is_space x) cs"
      then show ?thesis using False by (auto simp: proper_def dest: set_takeWhileD)
    next
      assume "w \<in> set (split_ws (dropWhile (\<lambda>x. \<not> is_space x) cs))"
      then show ?thesis using 2(2) False by simp
    qed
  qed
qed

lemma split_ws_append:
  assumes "proper w" and "rest = [] \<or> is_space (hd rest)"
  shows "split_ws (w @ rest) = w # split_ws rest"
proof -
  from assms(1) obtain c cs where w: "w = c # cs" and c: "\<not> is_space c"
    and cs: "\<forall>x \<in> set cs. \<not> is_space x"
    by (cases w) (auto simp: proper_def)
  have t: "takeWhile (\<lambda>x. \<not> is_space x) rest = []"
    using assms(2) by (cases rest) auto
  have d: "dropWhile (\<lambda>x. \<not> is_space x) rest = rest"
    using assms(2) by (cases rest) auto
  have t2: "takeWhile (\<lambda>x. \<not> is_space x) (cs @ rest) = cs"
    using cs t by (simp add: takeWhile_append2)
  have d2: "dropWhile (\<lambda>x. \<not> is_space x) (cs @ rest) = rest"
    using cs d by (simp add: dropWhile_append2)
  have "split_ws (c # (cs @ rest)) = (c # cs) # split_ws rest"
    using c by (simp only: split_ws.simps t2 d2 if_False)
  then show ?thesis by (simp add: w)
qed

lemma split_ws_word: "proper w \<Longrightarrow> split_ws w = [w]"
  using split_ws_append [of w "[]"] by simp

lemma split_ws_join:
  "\<forall>w \<in> set ws. proper w \<Longrightarrow> split_ws (join '' '' ws) = ws"
proof (induction ws rule: induct_list012)
  case 1
  then show ?case by simp
next
  case (2 w)
  then show ?case by (simp add: split_ws_word)
next
  case (3 w v ws)
  have "split_ws (w @ CHR '' '' # join '' '' (v # ws)) = w # split_ws (CHR '' '' # join '' '' (v # ws))"
    using 3(3) by (intro split_ws_append) (simp_all add: is_space_blank)
  also have "split_ws (CHR '' '' # join '' '' (v # ws)) = split_ws (join '' '' (v # ws))"
    by (simp only: split_ws.simps is_space_blank if_True)
  finally show ?case using 3 by simp
qed

lemma chunk_loop_words:
  assumes "\<forall>w \<in> set ws \<union> set cur. proper w"
    and "chunk_loop ml ws (chunks, cur, len) = (chunks', cur', len')"
  shows "concat (map split_ws chunks') @ cur' = concat (map split_ws chunks) @ cur @ ws"
  using assms
proof (induction ws arbitrary: chunks cur len)
  case Nil
  then show ?case by simp
next
  case (Cons word ws)
  show ?case
  proof (cases "len + (int (length word) + 1) > ml")
    case True
    with Cons.prems(2) have
      "chunk_loop ml ws (chunks @ [join '' '' cur], [word], int (length word) + 1) = (chunks', cur', len')"
      by simp
    moreover have "\<forall>w \<in> set ws \<union> set [word]. proper w" using Cons.prems(1) by simp
    ultimately have "concat (map split_ws chunks') @ cur'
        = concat (map split_ws (chunks @ [join '' '' cur])) @ [word] @ ws"
      by (rule Cons.IH [rotated])
    moreover have "split_ws (join '' '' cur) = cur"
      using Cons.prems(1) by (intro split_ws_join) simp
    ultimately show ?thesis by simp
  next
    case False
    with Cons.prems(2) have
      "chunk_loop ml ws (chunks, cur @ [word], len + (int (length word) + 1)) = (chunks', cur', len')"
      by simp
    moreover have "\<forall>w \<in> set ws \<union> set (cur @ [word]). proper w" using Cons.prems(1) by simp
    ultimately have "concat (map split_ws chunks') @ cur'
        = concat (map split_ws chunks) @ (cur @ [word]) @ ws"
      by (rule Cons.IH [rotated])
    then show ?thesis by simp
  qed
qed

section \<open>C1: the windows hold the words of the text\<close>

text \<open>
  Claim C1. For every text and every \<open>max_length\<close>, splitting the windows of
  \<open>chunk_text text max_length\<close> again, with the \<open>split\<close> that the windower itself uses,
  and concatenating the results in window order gives the word sequence of the text:
  no word is lost, duplicated or reordered.
\<close>

theorem chunk_text_words: "concat (map split_ws (chunk_text text max_length)) = split_ws text"
proof -
  obtain chunks cur len where
    r: "chunk_loop max_length (split_ws text) ([], [], 0) = (chunks, cur, len)"
    by (cases "chunk_loop max_length (split_ws text) ([], [], 0)") auto
  have p: "\<forall>w \<in> set (split_ws text) \<union> set []. proper w"
    by (simp add: split_ws_proper)
  from chunk_loop_words [OF p r]
  have inv: "concat (map split_ws chunks) @ cur = split_ws text" by simp
  have "set cur \<subseteq> set (split_ws text)"
    unfolding inv [symmetric] by simp
  then have "\<forall>w \<in> set cur. proper w"
    using split_ws_proper by blast
  then have "split_ws (join '' '' cur) = cur" by (rule split_ws_join)
  then show ?thesis using inv by (auto simp: chunk_text_def r)
qed

lemma length_join_snoc:
  "cur \<noteq> [] \<Longrightarrow> length (join '' '' (cur @ [word])) = length (join '' '' cur) + 1 + length word"
  by (induction cur rule: induct_list012) simp_all

lemma chunk_loop_budget:
  assumes "0 \<le> ml" and "set ws \<subseteq> W" and "\<forall>c \<in> set chunks. in_budget ml W c"
    and "cur = [] \<and> len = 0 \<or>
         cur \<noteq> [] \<and> len = int (length (join '' '' cur)) + 1 \<and> (len \<le> ml \<or> (\<exists>w \<in> W. cur = [w]))"
    and "chunk_loop ml ws (chunks, cur, len) = (chunks', cur', len')"
  shows "(\<forall>c \<in> set chunks'. in_budget ml W c) \<and> in_budget ml W (join '' '' cur')"
  using assms(2-)
proof (induction ws arbitrary: chunks cur len)
  case Nil
  then show ?case using assms(1) by (auto simp: in_budget_def)
next
  case (Cons word ws)
  have W: "set ws \<subseteq> W" and word: "word \<in> W" using Cons.prems(1) by auto
  have cur_ok: "in_budget ml W (join '' '' cur)"
    using Cons.prems(3) assms(1) by (auto simp: in_budget_def)
  show ?case
  proof (cases "len + (int (length word) + 1) > ml")
    case True
    with Cons.prems(4) have run:
      "chunk_loop ml ws (chunks @ [join '' '' cur], [word], int (length word) + 1) = (chunks', cur', len')"
      by simp
    have c: "\<forall>c \<in> set (chunks @ [join '' '' cur]). in_budget ml W c"
      using Cons.prems(2) cur_ok by simp
    have i: "[word] = [] \<and> int (length word) + 1 = 0 \<or>
         [word] \<noteq> [] \<and> int (length word) + 1 = int (length (join '' '' [word])) + 1 \<and>
           (int (length word) + 1 \<le> ml \<or> (\<exists>w \<in> W. [word] = [w]))"
      using word by simp
    show ?thesis by (rule Cons.IH [OF W c i run])
  next
    case False
    with Cons.prems(4) have run:
      "chunk_loop ml ws (chunks, cur @ [word], len + (int (length word) + 1)) = (chunks', cur', len')"
      by simp
    have l: "len + (int (length word) + 1) = int (length (join '' '' (cur @ [word]))) + 1"
    proof (cases "cur = []")
      case True
      then show ?thesis using Cons.prems(3) by simp
    next
      case False
      then show ?thesis using Cons.prems(3) by (simp add: length_join_snoc)
    qed
    have i: "cur @ [word] = [] \<and> len + (int (length word) + 1) = 0 \<or>
         cur @ [word] \<noteq> [] \<and>
           len + (int (length word) + 1) = int (length (join '' '' (cur @ [word]))) + 1 \<and>
           (len + (int (length word) + 1) \<le> ml \<or> (\<exists>w \<in> W. cur @ [word] = [w]))"
      using l False by simp
    show ?thesis by (rule Cons.IH [OF W Cons.prems(2) i run])
  qed
qed

section \<open>The character budget\<close>

text \<open>
  For every text and every \<open>max_length \<ge> 0\<close>, a window of \<open>chunk_text text max_length\<close>
  has at most \<open>max_length\<close> characters, separators counted, or it is one word of the
  text, taken whole: a window over the budget holds that single word and nothing else, so
  it exceeds the budget by one trailing word only.
\<close>

theorem chunk_text_budget:
  "0 \<le> max_length \<Longrightarrow>
   \<forall>window \<in> set (chunk_text text max_length).
     int (length window) \<le> max_length \<or> window \<in> set (split_ws text)"
proof -
  assume ml: "0 \<le> max_length"
  obtain chunks cur len where
    r: "chunk_loop max_length (split_ws text) ([], [], 0) = (chunks, cur, len)"
    by (cases "chunk_loop max_length (split_ws text) ([], [], 0)") auto
  have "(\<forall>c \<in> set chunks. in_budget max_length (set (split_ws text)) c)
      \<and> in_budget max_length (set (split_ws text)) (join '' '' cur)"
    by (rule chunk_loop_budget [OF ml _ _ _ r]) simp_all
  then show ?thesis by (auto simp: chunk_text_def r in_budget_def)
qed

theorem chunk_text_budget_witness:
  "(0::int) \<le> 12 \<and>
   ''incomprehensibility'' \<in> set (chunk_text ''the quick brown incomprehensibility fox'' 12) \<and>
   \<not> int (length ''incomprehensibility'') \<le> 12 \<and>
   ''incomprehensibility'' \<in> set (split_ws ''the quick brown incomprehensibility fox'')"
proof -
  have h: "(0::int) \<le> 12" by simp
  have e: "chunk_text ''the quick brown incomprehensibility fox'' 12
      = [''the quick'', ''brown'', ''incomprehensibility'', ''fox'']"
    by (simp add: chunk_text_def is_space_def)
  have m: "''incomprehensibility'' \<in> set (chunk_text ''the quick brown incomprehensibility fox'' 12)"
    by (simp add: e)
  have l: "\<not> int (length ''incomprehensibility'') \<le> 12" by simp
  show ?thesis
    using h m l chunk_text_budget [OF h, of "''the quick brown incomprehensibility fox''"]
    by blast
qed

section \<open>C3: the budget and the empty window\<close>


section \<open>C8: the empty text and the oversized word\<close>

text \<open>
  Claim C8. \<open>chunk_text\<close> of the empty string is the empty sequence, for every
  \<open>max_length\<close>. For a text whose only word is longer than \<open>max_length\<close>, that word is a
  window of its own, whole; the loop emits the empty window before it.
\<close>

theorem chunk_text_edge_cases:
  "chunk_text [] max_length = [] \<and>
   (split_ws text = [word] \<and> max_length < int (length word)
      \<longrightarrow> chunk_text text max_length = ['''', word])"
  by (simp add: chunk_text_def)

theorem chunk_text_edge_cases_witness:
  "split_ws ''  incomprehensibility '' = [''incomprehensibility''] \<and>
   (12::int) < int (length ''incomprehensibility'') \<and>
   chunk_text ''  incomprehensibility '' 12 = ['''', ''incomprehensibility'']"
proof -
  have s: "split_ws ''  incomprehensibility '' = [''incomprehensibility'']"
    by (simp add: is_space_def)
  have l: "(12::int) < int (length ''incomprehensibility'')" by simp
  show ?thesis
    using s l chunk_text_edge_cases [of 12 "''  incomprehensibility ''" "''incomprehensibility''"]
    by blast
qed

section \<open>C2: an empty window\<close>

text \<open>
  Claim C2 says that for \<open>max_length \<ge> 1\<close> every window is non-empty and that there are
  no more windows than words. On the text \<open>hello\<close> with \<open>max_length = 3\<close> the loop appends
  the join of the still empty \<open>current_chunk\<close>: the result has the empty window first, and
  two windows for one word.
\<close>

theorem chunk_text_empty_window:
  "chunk_text ''hello'' 3 = ['''', ''hello''] \<and>
   length (chunk_text ''hello'' 3) > length (split_ws ''hello'')"
  by (simp add: chunk_text_def is_space_def)


section \<open>The scenario, evaluated\<close>

lemma chunk_text_paris: "chunk_text paris_text 512 = [paris_text]"
  by (simp add: chunk_text_def paris_text_def is_space_def)

lemma strip_capital_question: "strip capital_question = capital_question"
  by (simp add: strip_def capital_question_def is_space_def)

lemma capital_question_not_empty: "capital_question \<noteq> []"
  by (simp add: capital_question_def)

lemma paris_text_not_empty: "paris_text \<noteq> []"
  by (simp add: paris_text_def)

lemma example_store_simps:
  "example_store ''s1'' = Some \<lparr>document_text = paris_text, conversation_history = []\<rparr>"
  "example_store ''s2'' = Some \<lparr>document_text = [], conversation_history = []\<rparr>"
  "example_store ''s3'' = Some \<lparr>document_text = ''   '', conversation_history = []\<rparr>"
  "example_store ''s9'' = None"
  by (simp_all add: example_store_def)

section \<open>The checks and the answer of \<open>ask_question\<close>\<close>

lemma ask_question_passed:
  assumes "session_id q = Some sid" and "sid \<noteq> []" and "sessions sid = Some s"
    and "document_text s \<noteq> []" and "strip (question q) \<noteq> []"
  shows "ask_question qa now q sessions =
     (case best_answer_loop qa (question q) (chunk_text (document_text s) 512) initial_best of
        Inl e \<Rightarrow> (Inl (ProcessingError e), sessions)
      | Inr best \<Rightarrow>
          (Inr \<lparr>response_answer = final_answer best,
                response_history = limit_history (conversation_history s @
                  [\<lparr>entry_question = question q, entry_answer = final_answer best,
                    entry_timestamp = now\<rparr>])\<rparr>,
           sessions(sid \<mapsto> s\<lparr>conversation_history := limit_history (conversation_history s @
                  [\<lparr>entry_question = question q, entry_answer = final_answer best,
                    entry_timestamp = now\<rparr>])\<rparr>)))"
  using assms by (simp add: ask_question_def Let_def split: sum.splits)

lemma errors_distinct:
  "EmptyDocument \<noteq> SessionNotFound" "EmptyQuestion \<noteq> SessionNotFound"
  "ProcessingError e \<noteq> SessionNotFound" "EmptyQuestion \<noteq> EmptyDocument"
  "ProcessingError e \<noteq> EmptyDocument" "ProcessingError e \<noteq> EmptyQuestion"
  by (simp_all add: EmptyDocument_def SessionNotFound_def EmptyQuestion_def ProcessingError_def)

section \<open>C7: the three checks, in order\<close>

text \<open>
  Claim C7. \<open>ask_question\<close> fails with \<open>SessionNotFound\<close> if and only if the session
  identifier is missing (\<open>None\<close> or the empty string, both false for \<open>not session_id\<close>) or
  absent from the store. For a session that exists, it fails with \<open>EmptyDocument\<close> when
  the document text is empty; when the text is not empty it fails with \<open>EmptyQuestion\<close>
  if the stripped question is empty; and a call that passes the three checks goes on to
  the answer: it returns a response, or the error of a pipeline that raised.
\<close>

theorem ask_question_checks:
  "(fst (ask_question qa now q sessions) = Inl SessionNotFound \<longleftrightarrow>
      session_id q = None \<or> session_id q = Some [] \<or>
      (\<exists>sid. session_id q = Some sid \<and> sessions sid = None)) \<and>
   (\<forall>sid s. session_id q = Some sid \<and> sid \<noteq> [] \<and> sessions sid = Some s \<longrightarrow>
      (document_text s = [] \<longrightarrow> ask_question qa now q sessions = (Inl EmptyDocument, sessions)) \<and>
      (document_text s \<noteq> [] \<and> strip (question q) = [] \<longrightarrow>
         ask_question qa now q sessions = (Inl EmptyQuestion, sessions)) \<and>
      (document_text s \<noteq> [] \<and> strip (question q) \<noteq> [] \<longrightarrow>
         (case best_answer_loop qa (question q) (chunk_text (document_text s) 512) initial_best of
            Inl e \<Rightarrow> fst (ask_question qa now q sessions) = Inl (ProcessingError e)
          | Inr best \<Rightarrow> \<exists>resp. fst (ask_question qa now q sessions) = Inr resp
                \<and> response_answer resp = final_answer best)))"
proof (intro conjI allI impI)
  show "fst (ask_question qa now q sessions) = Inl SessionNotFound \<longleftrightarrow>
      session_id q = None \<or> session_id q = Some [] \<or>
      (\<exists>sid. session_id q = Some sid \<and> sessions sid = None)"
    by (auto simp: ask_question_def Let_def errors_distinct split: option.splits sum.splits)
next
  fix sid s
  assume "session_id q = Some sid \<and> sid \<noteq> [] \<and> sessions sid = Some s" "document_text s = []"
  then show "ask_question qa now q sessions = (Inl EmptyDocument, sessions)"
    by (simp add: ask_question_def)
next
  fix sid s
  assume "session_id q = Some sid \<and> sid \<noteq> [] \<and> sessions sid = Some s"
    "document_text s \<noteq> [] \<and> strip (question q) = []"
  then show "ask_question qa now q sessions = (Inl EmptyQuestion, sessions)"
    by (simp add: ask_question_def)
next
  fix sid s
  assume "session_id q = Some sid \<and> sid \<noteq> [] \<and> sessions sid = Some s"
    "document_text s \<noteq> [] \<and> strip (question q) \<noteq> []"
  then have "ask_question qa now q sessions =
     (case best_answer_loop qa (question q) (chunk_text (document_text s) 512) initial_best of
        Inl e \<Rightarrow> (Inl (ProcessingError e), sessions)
      | Inr best \<Rightarrow>
          (Inr \<lparr>response_answer = final_answer best,
                response_history = limit_history (conversation_history s @
                  [\<lparr>entry_question = question q, entry_answer = final_answer best,
                    entry_timestamp = now\<rparr>])\<rparr>,
           sessions(sid \<mapsto> s\<lparr>conversation_history := limit_history (conversation_history s @
                  [\<lparr>entry_question = question q, entry_answer = final_answer best,
                    entry_timestamp = now\<rparr>])\<rparr>)))"
    by (intro ask_question_passed) simp_all
  then show "case best_answer_loop qa (question q) (chunk_text (document_text s) 512) initial_best of
            Inl e \<Rightarrow> fst (ask_question qa now q sessions) = Inl (ProcessingError e)
          | Inr best \<Rightarrow> \<exists>resp. fst (ask_question qa now q sessions) = Inr resp
                \<and> response_answer resp = final_answer best"
    by (simp split: sum.splits)
qed

theorem ask_question_checks_witness:
  "fst (ask_question stub_pipeline ''t'' \<lparr>question = capital_question, session_id = None\<rparr>
     example_store) = Inl SessionNotFound \<and>
   fst (ask_question stub_pipeline ''t'' \<lparr>question = capital_question, session_id = Some ''s9''\<rparr>
     example_store) = Inl SessionNotFound \<and>
   ask_question stub_pipeline ''t'' \<lparr>question = capital_question, session_id = Some ''s2''\<rparr>
     example_store = (Inl EmptyDocument, example_store) \<and>
   ask_question stub_pipeline ''t'' \<lparr>question = ''   '', session_id = Some ''s1''\<rparr>
     example_store = (Inl EmptyQuestion, example_store) \<and>
   (\<exists>resp. fst (ask_question stub_pipeline ''t''
       \<lparr>question = capital_question, session_id = Some ''s1''\<rparr> example_store) = Inr resp \<and>
     response_answer resp = ''Paris'')"
proof -
  have b: "strip ''   '' = []" by (simp add: strip_def is_space_def)
  have l: "best_answer_loop stub_pipeline capital_question (chunk_text paris_text 512) initial_best
      = Inr \<lparr>answer = ''Paris'', score = 0.95\<rparr>"
    by (simp add: chunk_text_paris stub_pipeline_def initial_best_def)
  have 1: "fst (ask_question stub_pipeline ''t'' \<lparr>question = capital_question, session_id = None\<rparr>
     example_store) = Inl SessionNotFound"
    using ask_question_checks [of stub_pipeline "''t''"
        "\<lparr>question = capital_question, session_id = None\<rparr>" example_store]
    by simp
  have 2: "fst (ask_question stub_pipeline ''t'' \<lparr>question = capital_question, session_id = Some ''s9''\<rparr>
     example_store) = Inl SessionNotFound"
    using ask_question_checks [of stub_pipeline "''t''"
        "\<lparr>question = capital_question, session_id = Some ''s9''\<rparr>" example_store]
    by (simp add: example_store_simps)
  have 3: "ask_question stub_pipeline ''t'' \<lparr>question = capital_question, session_id = Some ''s2''\<rparr>
     example_store = (Inl EmptyDocument, example_store)"
    using ask_question_checks [of stub_pipeline "''t''"
        "\<lparr>question = capital_question, session_id = Some ''s2''\<rparr>" example_store]
    by (simp add: example_store_simps)
  have 4: "ask_question stub_pipeline ''t'' \<lparr>question = ''   '', session_id = Some ''s1''\<rparr>
     example_store = (Inl EmptyQuestion, example_store)"
    using ask_question_checks [of stub_pipeline "''t''"
        "\<lparr>question = ''   '', session_id = Some ''s1''\<rparr>" example_store]
    by (simp add: example_store_simps b paris_text_not_empty)
  have 5: "\<exists>resp. fst (ask_question stub_pipeline ''t''
       \<lparr>question = capital_question, session_id = Some ''s1''\<rparr> example_store) = Inr resp \<and>
     response_answer resp = ''Paris''"
    using ask_question_checks [of stub_pipeline "''t''"
        "\<lparr>question = capital_question, session_id = Some ''s1''\<rparr>" example_store]
    by (simp add: example_store_simps paris_text_not_empty strip_capital_question
        capital_question_not_empty l final_answer_def)
  show ?thesis using 1 2 3 4 5 by blast
qed

section \<open>C9: a failed call leaves the store as it was\<close>

text \<open>
  Claim C9. Whenever \<open>ask_question\<close> fails, on one of the three checks or on an exception
  of the pipeline, the store it leaves is the store it was given: no record is appended
  and no session is changed.
\<close>

theorem ask_question_atomic:
  "fst (ask_question qa now q sessions) = Inl e \<Longrightarrow> snd (ask_question qa now q sessions) = sessions"
  by (auto simp: ask_question_def Let_def split: option.splits sum.splits if_splits)

theorem ask_question_atomic_witness:
  "fst (ask_question failing_pipeline ''t''
       \<lparr>question = capital_question, session_id = Some ''s1''\<rparr> example_store)
     = Inl (ProcessingError ''model unavailable'') \<and>
   snd (ask_question failing_pipeline ''t''
       \<lparr>question = capital_question, session_id = Some ''s1''\<rparr> example_store)
     = example_store"
proof -
  have e: "fst (ask_question failing_pipeline ''t''
       \<lparr>question = capital_question, session_id = Some ''s1''\<rparr> example_store)
     = Inl (ProcessingError ''model unavailable'')"
    by (simp add: ask_question_def example_store_simps paris_text_not_empty
        strip_capital_question capital_question_not_empty chunk_text_paris failing_pipeline_def)
  show ?thesis using e ask_question_atomic [OF e] by simp
qed

section \<open>C10: a document of whitespace only\<close>

lemma split_ws_blank: "\<forall>c \<in> set t. is_space c \<Longrightarrow> split_ws t = []"
  by (induction t) simp_all

text \<open>
  Claim C10. For a session whose document text is not empty but holds whitespace only,
  and a question that passes its check, \<open>ask_question\<close> does not fail: there are no
  windows, the loop returns the initial \<open>best_answer\<close> without calling the pipeline
  (whatever the pipeline is), and the call returns the sentinel, appended to the history
  as a record like any other.
\<close>

theorem ask_question_blank_document:
  assumes "session_id q = Some sid" and "sid \<noteq> []" and "sessions sid = Some s"
    and "document_text s \<noteq> []" and "\<forall>c \<in> set (document_text s). is_space c"
    and "strip (question q) \<noteq> []"
  shows "chunk_text (document_text s) 512 = [] \<and>
    best_answer_loop qa (question q) (chunk_text (document_text s) 512) initial_best
      = Inr initial_best \<and>
    ask_question qa now q sessions =
      (Inr \<lparr>response_answer = no_answer,
            response_history = limit_history (conversation_history s @
              [\<lparr>entry_question = question q, entry_answer = no_answer,
                entry_timestamp = now\<rparr>])\<rparr>,
       sessions(sid \<mapsto> s\<lparr>conversation_history := limit_history (conversation_history s @
              [\<lparr>entry_question = question q, entry_answer = no_answer,
                entry_timestamp = now\<rparr>])\<rparr>))"
proof -
  have c: "chunk_text (document_text s) 512 = []"
    using assms(5) by (simp add: chunk_text_def split_ws_blank)
  have f: "final_answer initial_best = no_answer"
    by (simp add: final_answer_def initial_best_def)
  have "ask_question qa now q sessions =
     (case best_answer_loop qa (question q) (chunk_text (document_text s) 512) initial_best of
        Inl e \<Rightarrow> (Inl (ProcessingError e), sessions)
      | Inr best \<Rightarrow>
          (Inr \<lparr>response_answer = final_answer best,
                response_history = limit_history (conversation_history s @
                  [\<lparr>entry_question = question q, entry_answer = final_answer best,
                    entry_timestamp = now\<rparr>])\<rparr>,
           sessions(sid \<mapsto> s\<lparr>conversation_history := limit_history (conversation_history s @
                  [\<lparr>entry_question = question q, entry_answer = final_answer best,
                    entry_timestamp = now\<rparr>])\<rparr>)))"
    using assms(1-4) assms(6) by (rule ask_question_passed)
  then show ?thesis
    using c f by simp
qed

theorem ask_question_blank_document_witness:
  "chunk_text ''   '' 512 = [] \<and>
   ask_question failing_pipeline ''t'' \<lparr>question = capital_question, session_id = Some ''s3''\<rparr>
     example_store =
     (Inr \<lparr>response_answer = no_answer,
           response_history = [\<lparr>entry_question = capital_question, entry_answer = no_answer,
             entry_timestamp = ''t''\<rparr>]\<rparr>,
      example_store(''s3'' \<mapsto> \<lparr>document_text = ''   '',
         conversation_history = [\<lparr>entry_question = capital_question, entry_answer = no_answer,
             entry_timestamp = ''t''\<rparr>]\<rparr>))"
proof -
  have sp: "\<forall>c \<in> set ''   ''. is_space c" by (simp add: is_space_def)
  show ?thesis
    using ask_question_blank_document [of "\<lparr>question = capital_question, session_id = Some ''s3''\<rparr>"
        "''s3''" example_store "\<lparr>document_text = ''   '', conversation_history = []\<rparr>"
        failing_pipeline "''t''"] sp
    by (simp add: example_store_simps strip_capital_question capital_question_not_empty
        limit_history_def)
qed

section \<open>The aggregation loop\<close>

lemma best_answer_loop_results:
  "map (qa q) chunks = map Inr rs \<Longrightarrow> best_answer_loop qa q chunks b = Inr (scan_results rs b)"
proof (induction chunks arbitrary: rs b)
  case Nil
  then show ?case by simp
next
  case (Cons c chunks)
  then obtain r rs' where rs: "rs = r # rs'" and r: "qa q c = Inr r"
    and m: "map (qa q) chunks = map Inr rs'"
    by (cases rs) auto
  show ?case using Cons.IH [OF m] by (simp add: rs r)
qed

lemma scan_results_first_max:
  "\<exists>pre post. b # rs = pre @ scan_results rs b # post \<and>
     (\<forall>x \<in> set pre. score x < score (scan_results rs b)) \<and>
     (\<forall>x \<in> set post. score x \<le> score (scan_results rs b))"
proof (induction rs arbitrary: b)
  case Nil
  have "[b] = [] @ b # [] \<and> (\<forall>x \<in> set []. score x < score b)
      \<and> (\<forall>x \<in> set []. score x \<le> score b)"
    by simp
  then show ?case unfolding scan_results.simps by blast
next
  case (Cons r rs)
  show ?case
  proof (cases "score r > score b")
    case True
    from Cons.IH [of r] obtain pre post where
      d: "r # rs = pre @ scan_results rs r # post"
      and lo: "\<forall>x \<in> set pre. score x < score (scan_results rs r)"
      and hi: "\<forall>x \<in> set post. score x \<le> score (scan_results rs r)"
      by blast
    have "score r \<le> score (scan_results rs r)"
    proof (cases pre)
      case Nil
      from d have "r # rs = scan_results rs r # post" unfolding Nil append_Nil .
      then have "scan_results rs r = r" by (metis list.inject)
      then show ?thesis by simp
    next
      case (Cons p pre')
      with d have "r \<in> set pre" by simp
      with lo show ?thesis by fastforce
    qed
    with True have b: "score b < score (scan_results rs r)" by simp
    have "b # r # rs = (b # pre) @ scan_results rs r # post" using d by simp
    moreover have "\<forall>x \<in> set (b # pre). score x < score (scan_results rs r)"
      using b lo by simp
    ultimately show ?thesis using hi True
      by (metis scan_results.simps(2))
  next
    case False
    then have s: "scan_results (r # rs) b = scan_results rs b" by simp
    from Cons.IH [of b] obtain pre post where
      d: "b # rs = pre @ scan_results rs b # post"
      and lo: "\<forall>x \<in> set pre. score x < score (scan_results rs b)"
      and hi: "\<forall>x \<in> set post. score x \<le> score (scan_results rs b)"
      by blast
    show ?thesis
    proof (cases pre)
      case Nil
      from d have "b # rs = scan_results rs b # post" unfolding Nil append_Nil .
      then have e: "scan_results rs b = b" and p: "post = rs" by (metis list.inject)+
      have "b # r # rs = [] @ scan_results rs b # (r # rs)" using e by simp
      moreover have "\<forall>x \<in> set (r # rs). score x \<le> score (scan_results rs b)"
        using hi p e False by auto
      ultimately show ?thesis unfolding s
        by (metis empty_iff list.set(1))
    next
      case (Cons p pre')
      from d have "b # rs = p # (pre' @ scan_results rs b # post)"
        unfolding Cons append_Cons .
      then have p: "p = b" and t: "rs = pre' @ scan_results rs b # post"
        by (metis list.inject)+
      have "score b < score (scan_results rs b)" using lo Cons p by simp
      with False have r: "score r < score (scan_results rs b)" by simp
      have "b # r # rs = (b # r # pre') @ scan_results rs b # post" using t by simp
      moreover have "\<forall>x \<in> set (b # r # pre'). score x < score (scan_results rs b)"
        using lo Cons p r by simp
      ultimately show ?thesis unfolding s using hi by blast
    qed
  qed
qed

lemma scan_results_mono:
  "list_all2 (\<lambda>r' r. score r' \<le> score r) rs' rs \<Longrightarrow> score b' \<le> score b \<Longrightarrow>
   score (scan_results rs' b') \<le> score (scan_results rs b)"
proof (induction rs' rs arbitrary: b' b rule: list_all2_induct)
  case Nil
  then show ?case by simp
next
  case (Cons r' rs' r rs)
  have "score (if score r' > score b' then r' else b') \<le> score (if score r > score b then r else b)"
    using Cons.hyps(1) Cons.prems by auto
  then have "score (scan_results rs' (if score r' > score b' then r' else b'))
      \<le> score (scan_results rs (if score r > score b then r else b))"
    by (rule Cons.IH)
  then show ?case by simp
qed

lemma list_update_lower:
  "k < length rs \<Longrightarrow> score r' \<le> score (rs ! k) \<Longrightarrow>
   list_all2 (\<lambda>r' r. score r' \<le> score r) (rs[k := r']) rs"
  by (simp add: list_all2_conv_all_nth nth_list_update)

section \<open>C5: the first maximum, and monotonicity\<close>

text \<open>
  Claim C5. When the pipeline returns the results \<open>rs\<close> for the windows, the loop returns
  the first candidate of maximal score among the initial \<open>best_answer\<close> (score 0) followed
  by \<open>rs\<close>: every candidate before it has a strictly lower score, every candidate after it
  a lower or equal one. So the answer is that of the first window attaining the maximum,
  once some window scores above 0. And replacing the result of any one window by a result
  of lower or equal score never increases the score of the final \<open>best_answer\<close>.
\<close>

theorem best_answer_first_maximum:
  assumes "map (qa q) chunks = map Inr rs"
  shows "\<exists>best pre post.
      best_answer_loop qa q chunks initial_best = Inr best \<and>
      initial_best # rs = pre @ best # post \<and>
      (\<forall>x \<in> set pre. score x < score best) \<and>
      (\<forall>x \<in> set post. score x \<le> score best) \<and>
      (\<forall>qa' k r' best'.
         k < length rs \<and> score r' \<le> score (rs ! k) \<and>
         map (qa' q) chunks = map Inr (rs[k := r']) \<and>
         best_answer_loop qa' q chunks initial_best = Inr best'
         \<longrightarrow> score best' \<le> score best)"
proof -
  let ?best = "scan_results rs initial_best"
  have l: "best_answer_loop qa q chunks initial_best = Inr ?best"
    using assms by (rule best_answer_loop_results)
  obtain pre post where d: "initial_best # rs = pre @ ?best # post"
    and lo: "\<forall>x \<in> set pre. score x < score ?best"
    and hi: "\<forall>x \<in> set post. score x \<le> score ?best"
    using scan_results_first_max [of initial_best rs] by blast
  have mono: "score best' \<le> score ?best"
    if "k < length rs" "score r' \<le> score (rs ! k)"
      "map (qa' q) chunks = map Inr (rs[k := r'])"
      "best_answer_loop qa' q chunks initial_best = Inr best'"
    for qa' k r' best'
  proof -
    have "best_answer_loop qa' q chunks initial_best = Inr (scan_results (rs[k := r']) initial_best)"
      using that(3) by (rule best_answer_loop_results)
    with that(4) have "best' = scan_results (rs[k := r']) initial_best" by simp
    moreover have "score (scan_results (rs[k := r']) initial_best) \<le> score ?best"
      using list_update_lower [OF that(1,2)] by (rule scan_results_mono) simp
    ultimately show ?thesis by simp
  qed
  show ?thesis using l d lo hi mono by blast
qed

theorem best_answer_first_maximum_witness:
  "map (tie_pipeline ''q'') [''c'', ''a'', ''b'']
     = map Inr [\<lparr>answer = ''third'', score = 0.25\<rparr>, \<lparr>answer = ''first'', score = 0.5\<rparr>,
                \<lparr>answer = ''second'', score = 0.5\<rparr>] \<and>
   best_answer_loop tie_pipeline ''q'' [''c'', ''a'', ''b''] initial_best
     = Inr \<lparr>answer = ''first'', score = 0.5\<rparr> \<and>
   best_answer_loop lowered_pipeline ''q'' [''c'', ''a'', ''b''] initial_best
     = Inr \<lparr>answer = ''second'', score = 0.5\<rparr> \<and>
   score \<lparr>answer = ''second'', score = 0.5\<rparr> \<le> score \<lparr>answer = ''first'', score = 0.5\<rparr>"
proof -
  let ?rs = "[\<lparr>answer = ''third'', score = 0.25\<rparr>, \<lparr>answer = ''first'', score = 0.5\<rparr>,
                \<lparr>answer = ''second'', score = 0.5\<rparr>]"
  have h: "map (tie_pipeline ''q'') [''c'', ''a'', ''b''] = map Inr ?rs"
    by (simp add: tie_pipeline_def)
  have h': "map (lowered_pipeline ''q'') [''c'', ''a'', ''b'']
      = map Inr (?rs[1 := \<lparr>answer = ''first'', score = 0.125\<rparr>])"
    by (simp add: lowered_pipeline_def tie_pipeline_def)
  have l: "best_answer_loop tie_pipeline ''q'' [''c'', ''a'', ''b''] initial_best
     = Inr \<lparr>answer = ''first'', score = 0.5\<rparr>"
    by (simp add: tie_pipeline_def initial_best_def)
  have l': "best_answer_loop lowered_pipeline ''q'' [''c'', ''a'', ''b''] initial_best
     = Inr \<lparr>answer = ''second'', score = 0.5\<rparr>"
    by (simp add: lowered_pipeline_def tie_pipeline_def initial_best_def)
  have k: "(1::nat) < length ?rs \<and> score \<lparr>answer = ''first'', score = 0.125\<rparr> \<le> score (?rs ! 1)"
    by simp
  from h best_answer_first_maximum [where qa = tie_pipeline and q = "''q''"
      and chunks = "[''c'', ''a'', ''b'']" and rs = ?rs]
  obtain best where
    b: "best_answer_loop tie_pipeline ''q'' [''c'', ''a'', ''b''] initial_best = Inr best"
    and m: "\<forall>qa' k r' best'.
         k < length ?rs \<and> score r' \<le> score (?rs ! k) \<and>
         map (qa' ''q'') [''c'', ''a'', ''b''] = map Inr (?rs[k := r']) \<and>
         best_answer_loop qa' ''q'' [''c'', ''a'', ''b''] initial_best = Inr best'
         \<longrightarrow> score best' \<le> score best"
    by blast
  from b l have e: "best = \<lparr>answer = ''first'', score = 0.5\<rparr>" by simp
  from m k h' l' have "score \<lparr>answer = ''second'', score = 0.5\<rparr> \<le> score best"
    by blast
  then show ?thesis using h l l' e by blast
qed

section \<open>C4: the relevance threshold\<close>

text \<open>
  Claim C4. For a call that passes the checks and a pipeline that returns the results
  \<open>rs\<close> for the windows of the document: if every score is below 0.1, \<open>ask_question\<close>
  returns the sentinel \<open>no_answer\<close>, whatever the candidate texts; if some score is at
  least 0.1, it returns the text of the best candidate, the result that the loop selected,
  whose score is maximal.
\<close>

theorem ask_question_threshold:
  assumes "session_id q = Some sid" and "sid \<noteq> []" and "sessions sid = Some s"
    and "document_text s \<noteq> []" and "strip (question q) \<noteq> []"
    and "map (qa (question q)) (chunk_text (document_text s) 512) = map Inr rs"
  shows "\<exists>resp sessions'.
      ask_question qa now q sessions = (Inr resp, sessions') \<and>
      ((\<forall>r \<in> set rs. score r < 0.1) \<longrightarrow> response_answer resp = no_answer) \<and>
      ((\<exists>r \<in> set rs. 0.1 \<le> score r) \<longrightarrow>
         (\<exists>best \<in> set rs. (\<forall>r \<in> set rs. score r \<le> score best) \<and>
            best_answer_loop qa (question q) (chunk_text (document_text s) 512) initial_best
              = Inr best \<and>
            response_answer resp = answer best))"
proof -
  let ?best = "scan_results rs initial_best"
  let ?h = "limit_history (conversation_history s @
              [\<lparr>entry_question = question q, entry_answer = final_answer ?best,
                entry_timestamp = now\<rparr>])"
  have l: "best_answer_loop qa (question q) (chunk_text (document_text s) 512) initial_best
      = Inr ?best"
    using assms(6) by (rule best_answer_loop_results)
  have a: "ask_question qa now q sessions =
      (Inr \<lparr>response_answer = final_answer ?best, response_history = ?h\<rparr>,
       sessions(sid \<mapsto> s\<lparr>conversation_history := ?h\<rparr>))"
    using assms(1-5) l by (simp add: ask_question_def Let_def)
  obtain pre post where d: "initial_best # rs = pre @ ?best # post"
    and lo: "\<forall>x \<in> set pre. score x < score ?best"
    and hi: "\<forall>x \<in> set post. score x \<le> score ?best"
    using scan_results_first_max [of initial_best rs] by blast
  have mem: "?best = initial_best \<or> ?best \<in> set rs"
    using d by (metis in_set_conv_decomp set_ConsD)
  have top: "\<forall>r \<in> set rs. score r \<le> score ?best"
  proof
    fix r assume "r \<in> set rs"
    then have "r \<in> set (pre @ ?best # post)" using d by (metis list.set_intros(2))
    then show "score r \<le> score ?best" using lo hi by fastforce
  qed
  have low: "final_answer ?best = no_answer" if "\<forall>r \<in> set rs. score r < 0.1"
    using mem that by (auto simp: final_answer_def initial_best_def)
  have high: "?best \<in> set rs \<and> final_answer ?best = answer ?best"
    if "\<exists>r \<in> set rs. 0.1 \<le> score r"
  proof -
    from that top have s: "0.1 \<le> score ?best" by fastforce
    then have "?best \<noteq> initial_best" by (auto simp: initial_best_def)
    with mem s show ?thesis by (simp add: final_answer_def)
  qed
  show ?thesis using a l top low high by auto
qed

theorem ask_question_threshold_witness:
  "(\<exists>resp sessions'. ask_question faint_pipeline ''t''
       \<lparr>question = capital_question, session_id = Some ''s1''\<rparr> example_store = (Inr resp, sessions')
       \<and> response_answer resp = no_answer) \<and>
   (\<exists>resp sessions'. ask_question stub_pipeline ''t''
       \<lparr>question = capital_question, session_id = Some ''s1''\<rparr> example_store = (Inr resp, sessions')
       \<and> response_answer resp = ''Paris'')"
proof -
  let ?q = "\<lparr>question = capital_question, session_id = Some ''s1''\<rparr>"
  let ?s = "\<lparr>document_text = paris_text, conversation_history = []\<rparr>"
  have v: "session_id ?q = Some ''s1''" "''s1'' \<noteq> []" "example_store ''s1'' = Some ?s"
    "document_text ?s \<noteq> []" "strip (question ?q) \<noteq> []"
    by (simp_all add: example_store_simps paris_text_not_empty strip_capital_question
        capital_question_not_empty)
  have lo: "map (faint_pipeline (question ?q)) (chunk_text (document_text ?s) 512)
      = map Inr [\<lparr>answer = ''France'', score = 0.05\<rparr>]"
    by (simp add: chunk_text_paris faint_pipeline_def)
  have hi: "map (stub_pipeline (question ?q)) (chunk_text (document_text ?s) 512)
      = map Inr [\<lparr>answer = ''Paris'', score = 0.95\<rparr>]"
    by (simp add: chunk_text_paris stub_pipeline_def)
  have 1: "\<exists>resp sessions'. ask_question faint_pipeline ''t'' ?q example_store = (Inr resp, sessions')
       \<and> response_answer resp = no_answer"
    using v lo ask_question_threshold [where q = ?q and sid = "''s1''" and sessions = example_store
        and s = ?s and qa = faint_pipeline and now = "''t''"
        and rs = "[\<lparr>answer = ''France'', score = 0.05\<rparr>]"]
    by simp
  have 2: "\<exists>resp sessions'. ask_question stub_pipeline ''t'' ?q example_store = (Inr resp, sessions')
       \<and> response_answer resp = ''Paris''"
    using v hi ask_question_threshold [where q = ?q and sid = "''s1''" and sessions = example_store
        and s = ?s and qa = stub_pipeline and now = "''t''"
        and rs = "[\<lparr>answer = ''Paris'', score = 0.95\<rparr>]"]
    by auto
  show ?thesis using 1 2 by blast
qed

section \<open>The history\<close>

lemma limit_history_drop: "limit_history h = drop (length h - 50) h"
  by (simp add: limit_history_def)

lemma length_limit_history: "length (limit_history h) \<le> 50"
  by (simp add: limit_history_def)

lemma limit_history_append:
  "limit_history (limit_history a @ b) = limit_history (a @ b)"
proof (cases "length a \<le> 50")
  case True
  then show ?thesis by (simp add: limit_history_def)
next
  case False
  then have a: "limit_history a = drop (length a - 50) a" and l: "length (drop (length a - 50) a) = 50"
    by (simp_all add: limit_history_def)
  have n: "length b + (length a - 50) = length a + length b - 50"
    using False by arith
  have "limit_history (drop (length a - 50) a @ b)
      = drop (length b) (drop (length a - 50) a) @ drop (length b - 50) b"
    using l by (simp add: limit_history_drop)
  also have "\<dots> = drop (length a + length b - 50) a @ drop (length b - 50) b"
    by (simp add: n)
  also have "\<dots> = limit_history (a @ b)"
    using False by (simp add: limit_history_drop)
  finally show ?thesis by (simp add: a)
qed

lemma ask_question_success:
  assumes "ask_question qa now q sessions = (Inr resp, sessions')"
  shows "\<exists>sid s. session_id q = Some sid \<and> sessions sid = Some s \<and>
     response_history resp = limit_history (conversation_history s @
       [\<lparr>entry_question = question q, entry_answer = response_answer resp,
         entry_timestamp = now\<rparr>]) \<and>
     sessions' = sessions(sid \<mapsto> s\<lparr>conversation_history := response_history resp\<rparr>)"
  using assms
  by (auto simp: ask_question_def Let_def split: option.splits if_splits sum.splits)

lemma ask_sequence_history:
  assumes "ask_sequence qa sid asks sessions = Inr sessions'" and "sessions sid = Some s"
  shows "\<exists>entries.
     map entry_timestamp entries = map fst asks \<and>
     map entry_question entries = map snd asks \<and>
     (\<forall>sid'. sid' \<noteq> sid \<longrightarrow> sessions' sid' = sessions sid') \<and>
     (asks \<noteq> [] \<longrightarrow> sessions' sid =
        Some (s\<lparr>conversation_history := limit_history (conversation_history s @ entries)\<rparr>))"
  using assms
proof (induction asks arbitrary: sessions s)
  case Nil
  then show ?case by simp
next
  case (Cons a asks)
  obtain now qtext where a: "a = (now, qtext)" by (cases a)
  let ?q = "\<lparr>question = qtext, session_id = Some sid\<rparr>"
  from Cons.prems(1) obtain resp sessions1 where
    one: "ask_question qa now ?q sessions = (Inr resp, sessions1)"
    and rest: "ask_sequence qa sid asks sessions1 = Inr sessions'"
    by (auto simp: a split: prod.splits sum.splits)
  let ?e = "\<lparr>entry_question = qtext, entry_answer = response_answer resp,
             entry_timestamp = now\<rparr>"
  let ?s1 = "s\<lparr>conversation_history := limit_history (conversation_history s @ [?e])\<rparr>"
  from ask_question_success [OF one] Cons.prems(2)
  have s1: "sessions1 = sessions(sid \<mapsto> ?s1)" by auto
  then have l1: "sessions1 sid = Some ?s1" by simp
  from Cons.IH [OF rest l1] obtain entries where
    ts: "map entry_timestamp entries = map fst asks"
    and qs: "map entry_question entries = map snd asks"
    and others: "\<forall>sid'. sid' \<noteq> sid \<longrightarrow> sessions' sid' = sessions1 sid'"
    and hist: "asks \<noteq> [] \<longrightarrow> sessions' sid =
        Some (?s1\<lparr>conversation_history := limit_history (conversation_history ?s1 @ entries)\<rparr>)"
    by blast
  have e0: "entries = []" if "asks = []" using that ts by simp
  have "sessions' sid =
      Some (s\<lparr>conversation_history := limit_history (conversation_history s @ ?e # entries)\<rparr>)"
  proof (cases "asks = []")
    case True
    with rest have "sessions' = sessions1" by simp
    then show ?thesis using l1 e0 [OF True] by simp
  next
    case False
    with hist have "sessions' sid =
        Some (?s1\<lparr>conversation_history := limit_history (conversation_history ?s1 @ entries)\<rparr>)"
      by simp
    moreover have "limit_history (conversation_history ?s1 @ entries)
        = limit_history (conversation_history s @ ?e # entries)"
      using limit_history_append [of "conversation_history s @ [?e]" entries] by simp
    ultimately show ?thesis by simp
  qed
  moreover have "map entry_timestamp (?e # entries) = map fst (a # asks)"
    using ts by (simp add: a)
  moreover have "map entry_question (?e # entries) = map snd (a # asks)"
    using qs by (simp add: a)
  moreover have "\<forall>sid'. sid' \<noteq> sid \<longrightarrow> sessions' sid' = sessions sid'"
    using others s1 by simp
  ultimately show ?case by blast
qed

lemma ask_sequence_succeeds:
  assumes "sid \<noteq> []" and "sessions sid = Some s" and "document_text s \<noteq> []"
    and "\<forall>a \<in> set asks. strip (snd a) \<noteq> [] \<and>
           (\<exists>b. best_answer_loop qa (snd a) (chunk_text (document_text s) 512) initial_best = Inr b)"
  shows "\<exists>sessions'. ask_sequence qa sid asks sessions = Inr sessions'"
  using assms(2-)
proof (induction asks arbitrary: sessions s)
  case Nil
  show ?case by simp
next
  case (Cons a asks)
  obtain now qtext where a: "a = (now, qtext)" by (cases a)
  from Cons.prems(3) a obtain b where st: "strip qtext \<noteq> []"
    and b: "best_answer_loop qa qtext (chunk_text (document_text s) 512) initial_best = Inr b"
    by auto
  let ?h = "limit_history (conversation_history s @
     [\<lparr>entry_question = qtext, entry_answer = final_answer b, entry_timestamp = now\<rparr>])"
  let ?s1 = "s\<lparr>conversation_history := ?h\<rparr>"
  have one: "ask_question qa now \<lparr>question = qtext, session_id = Some sid\<rparr> sessions =
      (Inr \<lparr>response_answer = final_answer b, response_history = ?h\<rparr>, sessions(sid \<mapsto> ?s1))"
    using assms(1) Cons.prems(1,2) st b by (simp add: ask_question_def Let_def)
  have "\<exists>sessions'. ask_sequence qa sid asks (sessions(sid \<mapsto> ?s1)) = Inr sessions'"
    by (rule Cons.IH [of _ ?s1]) (use Cons.prems in simp_all)
  then show ?case by (simp add: a one)
qed

section \<open>C6: the cap on the history\<close>

text \<open>
  Claim C6. After one or more completed calls of \<open>ask_question\<close> on a session, its history
  holds at most 50 records: the most recent 50 of the records it held followed by the
  records of the calls (one per call, in call order, with the timestamp and the question
  of the call), in their order, the oldest dropped; the other sessions are as they were.
  After 55 calls on a session that started with an empty history, exactly the records of
  the last 50 calls remain.
\<close>

theorem history_cap:
  assumes "ask_sequence qa sid asks sessions = Inr sessions'" and "sessions sid = Some s"
    and "asks \<noteq> []"
  shows "\<exists>entries history.
     map entry_timestamp entries = map fst asks \<and>
     map entry_question entries = map snd asks \<and>
     sessions' sid = Some (s\<lparr>conversation_history := history\<rparr>) \<and>
     (\<forall>sid'. sid' \<noteq> sid \<longrightarrow> sessions' sid' = sessions sid') \<and>
     length history \<le> 50 \<and>
     history = drop (length (conversation_history s @ entries) - 50)
                 (conversation_history s @ entries) \<and>
     (conversation_history s = [] \<and> length asks = 55
        \<longrightarrow> length history = 50 \<and> history = drop 5 entries)"
proof -
  from ask_sequence_history [OF assms(1,2)] assms(3) obtain entries where
    ts: "map entry_timestamp entries = map fst asks"
    and qs: "map entry_question entries = map snd asks"
    and others: "\<forall>sid'. sid' \<noteq> sid \<longrightarrow> sessions' sid' = sessions sid'"
    and hist: "sessions' sid =
        Some (s\<lparr>conversation_history := limit_history (conversation_history s @ entries)\<rparr>)"
    by blast
  let ?h = "limit_history (conversation_history s @ entries)"
  have len: "length entries = length asks"
    using ts by (metis length_map)
  have "conversation_history s = [] \<and> length asks = 55
        \<longrightarrow> length ?h = 50 \<and> ?h = drop 5 entries"
    using len by (simp add: limit_history_def)
  then show ?thesis
    using ts qs hist others length_limit_history [of "conversation_history s @ entries"]
      limit_history_drop [of "conversation_history s @ entries"]
    by blast
qed

theorem history_cap_witness:
  "\<exists>sessions' history.
     ask_sequence stub_pipeline ''s1'' example_asks example_store = Inr sessions' \<and>
     sessions' ''s1'' = Some \<lparr>document_text = paris_text, conversation_history = history\<rparr> \<and>
     length history = 50 \<and>
     map entry_timestamp history = map fst (drop 5 example_asks)"
proof -
  let ?s = "\<lparr>document_text = paris_text, conversation_history = []\<rparr>"
  have s: "example_store ''s1'' = Some ?s" by (simp add: example_store_simps)
  have n: "length example_asks = 55" "example_asks \<noteq> []"
    by (simp_all add: example_asks_def)
  have "\<forall>a \<in> set example_asks. strip (snd a) \<noteq> [] \<and>
      (\<exists>b. best_answer_loop stub_pipeline (snd a) (chunk_text (document_text ?s) 512) initial_best = Inr b)"
    by (auto simp: example_asks_def strip_capital_question capital_question_not_empty
        chunk_text_paris stub_pipeline_def)
  then obtain sessions' where
    run: "ask_sequence stub_pipeline ''s1'' example_asks example_store = Inr sessions'"
    using ask_sequence_succeeds [of "''s1''" example_store ?s example_asks stub_pipeline] s
    by (auto simp: paris_text_not_empty)
  from history_cap [OF run s n(2)] obtain entries history where
    ts: "map entry_timestamp entries = map fst example_asks"
    and st: "sessions' ''s1'' = Some (?s\<lparr>conversation_history := history\<rparr>)"
    and c: "conversation_history ?s = [] \<and> length example_asks = 55
        \<longrightarrow> length history = 50 \<and> history = drop 5 entries"
    by blast
  have "conversation_history ?s = []" by simp
  with c n(1) have "length history = 50 \<and> history = drop 5 entries" by blast
  then have l: "length history = 50" and h: "history = drop 5 entries" by blast+
  have "map entry_timestamp history = map fst (drop 5 example_asks)"
    unfolding h drop_map [symmetric] using ts by (rule arg_cong)
  then show ?thesis using run st l by simp
qed

end
